theory Spec2Isabelle
  imports Complex_Main
begin

section \<open>The voice-command matcher of \<open>static/app/utils/voiceAssistParser.ts\<close>\<close>

text \<open>
  The module has three parts: the tokenizer \<open>normalizeInput\<close>, the class
  \<open>FuzzyCommand\<close> with its method \<open>match\<close>, and the dispatcher \<open>parse\<close>.
  Each is embedded below as a HOL function that follows the TypeScript statement by
  statement.

  Modelling conventions.
  \<^item> A JavaScript string is a sequence of code units. A \<open>string\<close> of the model is
    a list of characters with the codes 0 to 255, each standing for the code unit of
    that code: the Latin-1 range of Unicode, ASCII included. Strings with higher code
    units are outside the model.
  \<^item> A JavaScript \<open>number\<close> holding a confidence is a \<open>real\<close>. The module only
    copies and compares confidences (\<open><\<close>), which is exact on finite values; the
    value NaN, which the recognition interface never reports, is outside the model.
  \<^item> \<open>null\<close> in a type \<open>T | null\<close> is \<open>None\<close> of \<open>T option\<close>.
\<close>

subsection \<open>Data\<close>

record MatchResult =
  confidence :: real
  id_m :: string

record SpeechRecognitionAlternative =
  confidence :: real
  transcript :: string

text \<open>
  The interface \<open>Command\<close> has the single method \<open>match\<close>; a command is the
  function that method computes.
\<close>

type_synonym Command = "SpeechRecognitionAlternative \<Rightarrow> MatchResult option"

subsection \<open>The tokenizer \<open>normalizeInput\<close>\<close>

text \<open>
  \<open>val.toLowerCase()\<close>. In the range of the model the characters with a lower-case
  form are \<open>A\<close>..\<open>Z\<close> (codes 65 to 90) and the accented capitals U+00C0 to U+00DE
  (codes 192 to 222) without the multiplication sign U+00D7 (code 215); the lower-case
  form is 32 places up. Every other character is its own lower-case form.
\<close>

definition toLowerCase_char :: "char \<Rightarrow> char" where
  "toLowerCase_char c =
     (let n = (of_char c :: nat)
      in if (65 \<le> n \<and> n \<le> 90) \<or> (192 \<le> n \<and> n \<le> 222 \<and> n \<noteq> 215)
         then char_of (n + 32) else c)"

definition toLowerCase :: "string \<Rightarrow> string" where
  "toLowerCase val = map toLowerCase_char val"

text \<open>The character class \<open>[ ,;.:]\<close> of the regular expression.\<close>

definition is_sep :: "char \<Rightarrow> bool" where
  "is_sep c \<longleftrightarrow> c = CHR '' '' \<or> c = CHR '','' \<or> c = CHR '';'' \<or> c = CHR ''.'' \<or> c = CHR '':''"

text \<open>
  \<open>val.replace(/[ ,;.:]+/g, ' ')\<close>: scanning from the left, each match is the longest
  run of class characters at that position, and a single space is put in its place.
\<close>

function replace_seps :: "string \<Rightarrow> string" where
  "replace_seps [] = []"
| "replace_seps (c # cs) =
     (if is_sep c then CHR '' '' # replace_seps (dropWhile is_sep cs)
      else c # replace_seps cs)"
  by pat_completeness auto
termination
  by (relation "measure length") (auto simp: less_Suc_eq_le length_dropWhile_le)

text \<open>
  \<open>if (val.length > 0 && val[0] === ' ') val = val.substring(1)\<close> and the same test
  on the last character with \<open>val.substring(0, val.length - 1)\<close>.
\<close>

definition strip_leading :: "string \<Rightarrow> string" where
  "strip_leading val =
     (case val of [] \<Rightarrow> [] | c # cs \<Rightarrow> if c = CHR '' '' then cs else val)"

definition strip_trailing :: "string \<Rightarrow> string" where
  "strip_trailing val =
     (if val \<noteq> [] \<and> last val = CHR '' '' then butlast val else val)"

text \<open>
  \<open>val.split(' ')\<close>: the pieces between the spaces, one more piece than there are
  spaces; the empty string gives the one piece \<open>''''\<close>. \<open>cur\<close> is the piece being read.
\<close>

fun split_from :: "string \<Rightarrow> string \<Rightarrow> string list" where
  "split_from cur [] = [cur]"
| "split_from cur (c # cs) =
     (if c = CHR '' '' then cur # split_from [] cs else split_from (cur @ [c]) cs)"

definition split_sp :: "string \<Rightarrow> string list" where
  "split_sp val = split_from [] val"

definition normalizeInput :: "string \<Rightarrow> string list" where
  "normalizeInput val =
     split_sp (strip_trailing (strip_leading (replace_seps (toLowerCase val))))"

subsection \<open>The dictionaries of \<open>FuzzyCommand\<close>\<close>

text \<open>
  \<open>Dictionary<boolean>\<close> values are created by the object literal \<open>{}\<close>: ordinary
  objects whose prototype is \<open>Object.prototype\<close>. A dictionary is modelled by its own
  properties; a read \<open>d[k]\<close> that finds no own property \<open>k\<close> continues on the
  prototype, as property lookup in ECMAScript does.

  \<open>Object_prototype_keys\<close> lists the property names of \<open>Object.prototype\<close>. Each of
  them holds a function, except \<open>__proto__\<close>, an accessor whose getter returns the
  prototype object itself: every one of these values is truthy.
\<close>

type_synonym Dictionary = "string \<rightharpoonup> bool"

definition Object_prototype_keys :: "string list" where
  "Object_prototype_keys =
     [''constructor'', ''__proto__'', ''hasOwnProperty'', ''isPrototypeOf'',
      ''propertyIsEnumerable'', ''toLocaleString'', ''toString'', ''valueOf'',
      ''__defineGetter__'', ''__defineSetter__'', ''__lookupGetter__'',
      ''__lookupSetter__'']"

text \<open>
  \<open>d[k] = true\<close>. The name \<open>__proto__\<close> reaches the setter inherited from
  \<open>Object.prototype\<close>, which ignores a value that is neither an object nor \<open>null\<close>;
  any other name becomes an own property.
\<close>

definition dict_set_true :: "Dictionary \<Rightarrow> string \<Rightarrow> Dictionary" where
  "dict_set_true d k = (if k = ''__proto__'' then d else d(k \<mapsto> True))"

text \<open>The condition \<open>if (d[token])\<close>: whether the value read is truthy.\<close>

definition dict_truthy :: "Dictionary \<Rightarrow> string \<Rightarrow> bool" where
  "dict_truthy d token =
     (case d token of Some b \<Rightarrow> b | None \<Rightarrow> token \<in> set Object_prototype_keys)"

text \<open>The constructor's loops \<open>for (idx ...) d[keys[idx]] = true\<close>.\<close>

fun fill_dictionary :: "Dictionary \<Rightarrow> string list \<Rightarrow> Dictionary" where
  "fill_dictionary d [] = d"
| "fill_dictionary d (k # keys) = fill_dictionary (dict_set_true d k) keys"

subsection \<open>\<open>FuzzyCommand\<close>\<close>

record FuzzyCommand =
  id_c :: string
  verbFirst :: bool
  verbs :: Dictionary
  attributes :: Dictionary

text \<open>
  The constructor. In the source \<open>verbFirst\<close> is an optional parameter whose default
  is \<open>true\<close>; here it is always passed.
\<close>

definition new_FuzzyCommand :: "string \<Rightarrow> string list \<Rightarrow> string list \<Rightarrow> bool \<Rightarrow> FuzzyCommand" where
  "new_FuzzyCommand ident vs validAttributes vf =
     \<lparr>id_c = ident, verbFirst = vf,
      verbs = fill_dictionary Map.empty vs,
      attributes = fill_dictionary Map.empty validAttributes\<rparr>"

text \<open>
  One round of the loop of \<open>match\<close> on the state \<open>(verb, args)\<close>, and the loop over
  the tokens.
\<close>

definition match_token :: "FuzzyCommand \<Rightarrow> string option \<times> string list \<Rightarrow> string \<Rightarrow> string option \<times> string list" where
  "match_token c st token =
     (let verb = (if fst st = None
                  then (if dict_truthy (verbs c) token then Some token else fst st)
                  else fst st);
          args = (if verb \<noteq> None \<or> \<not> verbFirst c
                  then (if dict_truthy (attributes c) token then snd st @ [token] else snd st)
                  else snd st)
      in (verb, args))"

fun match_loop :: "FuzzyCommand \<Rightarrow> string option \<times> string list \<Rightarrow> string list \<Rightarrow> string option \<times> string list" where
  "match_loop c st [] = st"
| "match_loop c st (token # tokens) = match_loop c (match_token c st token) tokens"

definition match :: "FuzzyCommand \<Rightarrow> Command" where
  "match c input =
     (let tokens = normalizeInput (transcript input);
          st = match_loop c (None, []) tokens
      in if fst st \<noteq> None \<and> length (snd st) > 0
         then Some \<lparr>MatchResult.confidence = confidence input, id_m = id_c c\<rparr>
         else None)"

subsection \<open>The dispatcher \<open>parse\<close>\<close>

text \<open>
  The state of both loops is the pair \<open>(highestMatch, highestAlternative)\<close>.
  \<open>try_command\<close> is one round of the inner loop, \<open>commands_loop\<close> the inner loop,
  \<open>parse_alternative\<close> one round of the outer loop, \<open>alternatives_loop\<close> the outer
  loop.
\<close>

type_synonym parse_state = "MatchResult option \<times> SpeechRecognitionAlternative option"

definition try_command :: "SpeechRecognitionAlternative \<Rightarrow> parse_state \<Rightarrow> Command \<Rightarrow> parse_state" where
  "try_command alternative st command =
     (case command alternative of
        None \<Rightarrow> st
      | Some m \<Rightarrow>
          (case fst st of
             None \<Rightarrow> (Some m, Some alternative)
           | Some highestMatch \<Rightarrow>
               if MatchResult.confidence highestMatch < confidence alternative
               then (Some m, Some alternative)
               else st))"

fun commands_loop :: "SpeechRecognitionAlternative \<Rightarrow> parse_state \<Rightarrow> Command list \<Rightarrow> parse_state" where
  "commands_loop alternative st [] = st"
| "commands_loop alternative st (command # commands) =
     commands_loop alternative (try_command alternative st command) commands"

definition parse_alternative :: "Command list \<Rightarrow> parse_state \<Rightarrow> SpeechRecognitionAlternative \<Rightarrow> parse_state" where
  "parse_alternative commands st alternative =
     (let h1 = (case snd st of None \<Rightarrow> alternative | Some h \<Rightarrow> h);
          h2 = (if fst st = None \<and> confidence h1 < confidence alternative
                then alternative else h1)
      in commands_loop alternative (fst st, Some h2) commands)"

fun alternatives_loop :: "Command list \<Rightarrow> parse_state \<Rightarrow> SpeechRecognitionAlternative list \<Rightarrow> parse_state" where
  "alternatives_loop commands st [] = st"
| "alternatives_loop commands st (alternative # vals) =
     alternatives_loop commands (parse_alternative commands st alternative) vals"

definition parse :: "SpeechRecognitionAlternative list \<Rightarrow> Command list \<Rightarrow> parse_state" where
  "parse vals commands = alternatives_loop commands (None, None) vals"

subsection \<open>Notions used to state the properties\<close>



text \<open>
  The matches that \<open>parse\<close> meets, in the order of its two loops: for each alternative
  in turn, the results of the commands that match it, each paired with the alternative.
\<close>

fun command_matches :: "SpeechRecognitionAlternative \<Rightarrow> Command list \<Rightarrow> (MatchResult \<times> SpeechRecognitionAlternative) list" where
  "command_matches alternative [] = []"
| "command_matches alternative (command # commands) =
     (case command alternative of
        None \<Rightarrow> command_matches alternative commands
      | Some m \<Rightarrow> (m, alternative) # command_matches alternative commands)"

fun all_matches :: "SpeechRecognitionAlternative list \<Rightarrow> Command list \<Rightarrow> (MatchResult \<times> SpeechRecognitionAlternative) list" where
  "all_matches [] commands = []"
| "all_matches (alternative # vals) commands =
     command_matches alternative commands @ all_matches vals commands"

text \<open>
  The selection rule in the words of the specification: starting from the first match,
  a later match is adopted only if its alternative's confidence strictly exceeds the
  confidence of the match held at that moment.
\<close>

fun keep_best :: "MatchResult \<times> SpeechRecognitionAlternative \<Rightarrow> (MatchResult \<times> SpeechRecognitionAlternative) list \<Rightarrow> MatchResult \<times> SpeechRecognitionAlternative" where
  "keep_best best [] = best"
| "keep_best best (later # rest) =
     keep_best (if MatchResult.confidence (fst best) < confidence (snd later)
                then later else best) rest"

definition chosen :: "MatchResult \<times> SpeechRecognitionAlternative \<Rightarrow> parse_state" where
  "chosen best = (Some (fst best), Some (snd best))"

text \<open>
  The fallback candidate while no command has matched: the first alternative, replaced
  by each later alternative of strictly higher confidence.
\<close>

fun promote :: "SpeechRecognitionAlternative option \<Rightarrow> SpeechRecognitionAlternative list \<Rightarrow> SpeechRecognitionAlternative option" where
  "promote h [] = h"
| "promote h (alternative # vals) =
     promote (Some (case h of
                      None \<Rightarrow> alternative
                    | Some b \<Rightarrow> if confidence b < confidence alternative then alternative else b))
       vals"

text \<open>
  The command of the specification's design note, with \<open>verbs\<close> and \<open>attributes\<close> as
  sets of strings: the verb is the first token in the verb set; the arguments are the
  tokens in the attribute set, counted from the verb's token on when \<open>verbFirst\<close>
  holds and over the whole transcript otherwise.
\<close>

definition set_match :: "string \<Rightarrow> string set \<Rightarrow> string set \<Rightarrow> bool \<Rightarrow> Command" where
  "set_match ident vs validAttributes vf input =
     (let tokens = normalizeInput (transcript input);
          verb = find (\<lambda>t. t \<in> vs) tokens;
          args = (if vf then filter (\<lambda>t. t \<in> validAttributes) (dropWhile (\<lambda>t. t \<notin> vs) tokens)
                  else filter (\<lambda>t. t \<in> validAttributes) tokens)
      in if verb \<noteq> None \<and> args \<noteq> []
         then Some \<lparr>MatchResult.confidence = confidence input, id_m = ident\<rparr>
         else None)"

section \<open>Properties\<close>

lemmas tokenizer_defs = normalizeInput_def toLowerCase_def toLowerCase_char_def is_sep_def
  strip_leading_def strip_trailing_def split_sp_def

subsection \<open>The tokenizer\<close>































subsection \<open>Lists\<close>

lemma Bex_set_nth: "(\<exists>x\<in>set xs. P x) \<longleftrightarrow> (\<exists>i<length xs. P (xs ! i))"
  by (metis in_set_conv_nth)

lemma find_exists_conv: "find P xs \<noteq> None \<longleftrightarrow> (\<exists>i<length xs. P (xs ! i))"
proof -
  have "find P xs \<noteq> None \<longleftrightarrow> (\<exists>x\<in>set xs. P x)"
    by (auto simp: find_None_iff)
  then show ?thesis by (simp only: Bex_set_nth)
qed

lemma filter_exists_conv: "filter P xs \<noteq> [] \<longleftrightarrow> (\<exists>i<length xs. P (xs ! i))"
proof -
  have "filter P xs \<noteq> [] \<longleftrightarrow> (\<exists>x\<in>set xs. P x)"
    by (auto simp: filter_empty_conv)
  then show ?thesis by (simp only: Bex_set_nth)
qed

lemma filter_dropWhile_exists_conv:
  "filter A (dropWhile (\<lambda>t. \<not> V t) xs) \<noteq> [] \<longleftrightarrow>
     (\<exists>i j. i \<le> j \<and> j < length xs \<and> V (xs ! i) \<and> A (xs ! j))"
proof (induction xs)
  case Nil
  then show ?case by simp
next
  case (Cons x xs)
  show ?case
  proof (cases "V x")
    case True
    have "(\<exists>i j. i \<le> j \<and> j < length (x # xs) \<and> V ((x # xs) ! i) \<and> A ((x # xs) ! j)) \<longleftrightarrow>
          (\<exists>j<length (x # xs). A ((x # xs) ! j))"
      using True by (metis le0 nth_Cons_0)
    with True show ?thesis
      using filter_exists_conv [of A "x # xs"] by simp
  next
    case False
    have "(\<exists>i j. i \<le> j \<and> j < length (x # xs) \<and> V ((x # xs) ! i) \<and> A ((x # xs) ! j)) \<longleftrightarrow>
          (\<exists>i j. i \<le> j \<and> j < length xs \<and> V (xs ! i) \<and> A (xs ! j))"
    proof
      assume "\<exists>i j. i \<le> j \<and> j < length (x # xs) \<and> V ((x # xs) ! i) \<and> A ((x # xs) ! j)"
      then obtain i j where ij: "i \<le> j" "j < length (x # xs)" "V ((x # xs) ! i)" "A ((x # xs) ! j)"
        by blast
      with False obtain i' where i': "i = Suc i'" by (cases i) auto
      with ij obtain j' where j': "j = Suc j'" by (cases j) auto
      from ij i' j' show "\<exists>i j. i \<le> j \<and> j < length xs \<and> V (xs ! i) \<and> A (xs ! j)"
        by (intro exI[of _ i'] exI[of _ j']) simp
    next
      assume "\<exists>i j. i \<le> j \<and> j < length xs \<and> V (xs ! i) \<and> A (xs ! j)"
      then obtain i j where "i \<le> j" "j < length xs" "V (xs ! i)" "A (xs ! j)" by blast
      then show "\<exists>i j. i \<le> j \<and> j < length (x # xs) \<and> V ((x # xs) ! i) \<and> A ((x # xs) ! j)"
        by (intro exI[of _ "Suc i"] exI[of _ "Suc j"]) simp
    qed
    with False Cons.IH show ?thesis by simp
  qed
qed

subsection \<open>The loop of \<open>match\<close>\<close>

lemma match_loop_verb_kept:
  "fst (match_loop c (Some v, args) tokens) = Some v"
  by (induction tokens arbitrary: args) (simp_all add: match_token_def Let_def)

lemma match_loop_args_after_verb:
  "snd (match_loop c (Some v, args) tokens) =
     args @ filter (dict_truthy (attributes c)) tokens"
  by (induction tokens arbitrary: args) (simp_all add: match_token_def Let_def)

lemma match_loop_first_verb:
  "fst (match_loop c (None, args) tokens) = find (dict_truthy (verbs c)) tokens"
  by (induction tokens arbitrary: args)
     (simp_all add: match_token_def Let_def match_loop_verb_kept)

lemma match_loop_args_verbFirst:
  "verbFirst c \<Longrightarrow>
   snd (match_loop c (None, args) tokens) =
     args @ filter (dict_truthy (attributes c))
              (dropWhile (\<lambda>t. \<not> dict_truthy (verbs c) t) tokens)"
  by (induction tokens arbitrary: args)
     (simp_all add: match_token_def Let_def match_loop_args_after_verb)

lemma match_loop_args_any_order:
  "\<not> verbFirst c \<Longrightarrow>
   snd (match_loop c (None, args) tokens) =
     args @ filter (dict_truthy (attributes c)) tokens"
  by (induction tokens arbitrary: args)
     (simp_all add: match_token_def Let_def match_loop_args_after_verb)

lemma match_Some_iff:
  "(\<exists>r. match c a = Some r) \<longleftrightarrow>
     fst (match_loop c (None, []) (normalizeInput (transcript a))) \<noteq> None \<and>
     snd (match_loop c (None, []) (normalizeInput (transcript a))) \<noteq> []"
  by (simp add: match_def Let_def)

lemma match_result:
  "match c a = Some r \<Longrightarrow> r = \<lparr>MatchResult.confidence = confidence a, id_m = id_c c\<rparr>"
  by (auto simp: match_def Let_def split: if_splits)

lemma match_Some_verbFirst:
  assumes "verbFirst c"
  shows "(\<exists>r. match c a = Some r) \<longleftrightarrow>
     (\<exists>i j. i \<le> j \<and> j < length (normalizeInput (transcript a)) \<and>
        dict_truthy (verbs c) (normalizeInput (transcript a) ! i) \<and>
        dict_truthy (attributes c) (normalizeInput (transcript a) ! j))"
proof -
  let ?ts = "normalizeInput (transcript a)"
  let ?V = "dict_truthy (verbs c)" and ?A = "dict_truthy (attributes c)"
  have "(\<exists>r. match c a = Some r) \<longleftrightarrow>
      find ?V ?ts \<noteq> None \<and> filter ?A (dropWhile (\<lambda>t. \<not> ?V t) ?ts) \<noteq> []"
    using assms match_loop_args_verbFirst [of c "[]" ?ts]
    by (simp add: match_Some_iff match_loop_first_verb)
  also have "\<dots> \<longleftrightarrow> filter ?A (dropWhile (\<lambda>t. \<not> ?V t) ?ts) \<noteq> []"
    unfolding filter_dropWhile_exists_conv find_exists_conv
    by (meson le_less_trans)
  finally show ?thesis
    by (simp only: filter_dropWhile_exists_conv)
qed

lemma match_Some_any_order:
  assumes "\<not> verbFirst c"
  shows "(\<exists>r. match c a = Some r) \<longleftrightarrow>
     (\<exists>i<length (normalizeInput (transcript a)).
        dict_truthy (verbs c) (normalizeInput (transcript a) ! i)) \<and>
     (\<exists>j<length (normalizeInput (transcript a)).
        dict_truthy (attributes c) (normalizeInput (transcript a) ! j))"
proof -
  let ?ts = "normalizeInput (transcript a)"
  have "(\<exists>r. match c a = Some r) \<longleftrightarrow>
      find (dict_truthy (verbs c)) ?ts \<noteq> None \<and> filter (dict_truthy (attributes c)) ?ts \<noteq> []"
    using assms match_loop_args_any_order [of c "[]" ?ts]
    by (simp add: match_Some_iff match_loop_first_verb)
  then show ?thesis
    by (simp only: find_exists_conv filter_exists_conv)
qed

subsection \<open>The dictionaries\<close>

lemma fill_dictionary_lookup:
  "fill_dictionary d keys k =
     (if k \<in> set keys \<and> k \<noteq> ''__proto__'' then Some True else d k)"
  by (induction keys arbitrary: d) (auto simp: dict_set_true_def)

lemma dict_truthy_fill:
  "dict_truthy (fill_dictionary Map.empty keys) token \<longleftrightarrow>
     token \<in> set keys \<or> token \<in> set Object_prototype_keys"
  by (auto simp: dict_truthy_def fill_dictionary_lookup Object_prototype_keys_def)

lemma normalizeInput_empty: "normalizeInput [] = [[]]"
  by (simp add: tokenizer_defs)

subsection \<open>What \<open>match\<close> returns\<close>

text \<open>
  C5. Whenever \<open>match\<close> returns a result, the result's id is the command's id and its
  confidence is the alternative's confidence, copied as it is.
\<close>

theorem match_copies_id_and_confidence:
  "match c a = Some r \<Longrightarrow> id_m r = id_c c \<and> MatchResult.confidence r = confidence a"
  by (auto simp: match_def Let_def split: if_splits)

theorem match_copies_id_and_confidence_witness:
  "match (new_FuzzyCommand ''OPEN'' [''open''] [''settings''] True)
     \<lparr>confidence = 0.4, transcript = ''Open settings''\<rparr>
     = Some \<lparr>MatchResult.confidence = 0.4, id_m = ''OPEN''\<rparr> \<and>
   id_m \<lparr>MatchResult.confidence = 0.4, id_m = ''OPEN''\<rparr>
     = id_c (new_FuzzyCommand ''OPEN'' [''open''] [''settings''] True) \<and>
   MatchResult.confidence \<lparr>MatchResult.confidence = 0.4, id_m = ''OPEN''\<rparr>
     = confidence \<lparr>confidence = 0.4, transcript = ''Open settings''\<rparr>"
proof -
  have m: "match (new_FuzzyCommand ''OPEN'' [''open''] [''settings''] True)
     \<lparr>confidence = 0.4, transcript = ''Open settings''\<rparr>
     = Some \<lparr>MatchResult.confidence = 0.4, id_m = ''OPEN''\<rparr>"
    by code_simp
  from match_copies_id_and_confidence [OF m] m show ?thesis by simp
qed

text \<open>
  C2. Membership in a command's verb set and attribute set is the test the code makes,
  the truthy read of the dictionary (\<open>is_verb\<close>, \<open>is_attribute\<close>). Scanning the tokens
  from the left, the loop of \<open>match\<close> ends with the first token of the verb set as the
  verb (no verb if there is none) and with the collected tokens of the attribute set:
  under \<open>verbFirst\<close> those from the verb's token on, otherwise all of them. Once a verb
  is set, no later token changes it. \<open>match\<close> returns a result if and only if the scan
  found a verb and collected at least one attribute token.
\<close>

theorem match_scan_result:
  fixes c :: FuzzyCommand and a :: SpeechRecognitionAlternative
  defines "is_verb \<equiv> dict_truthy (verbs c)"
    and "is_attribute \<equiv> dict_truthy (attributes c)"
  shows
  "match_loop c (None, []) tokens =
     (find is_verb tokens,
      if verbFirst c then filter is_attribute (dropWhile (\<lambda>t. \<not> is_verb t) tokens)
      else filter is_attribute tokens) \<and>
   fst (match_loop c (Some v, args) tokens) = Some v \<and>
   ((\<exists>r. match c a = Some r) \<longleftrightarrow>
      find is_verb (normalizeInput (transcript a)) \<noteq> None \<and>
      (if verbFirst c
       then filter is_attribute (dropWhile (\<lambda>t. \<not> is_verb t) (normalizeInput (transcript a)))
       else filter is_attribute (normalizeInput (transcript a))) \<noteq> [])"
proof -
  have state: "match_loop c (None, []) ts =
     (find is_verb ts,
      if verbFirst c then filter is_attribute (dropWhile (\<lambda>t. \<not> is_verb t) ts)
      else filter is_attribute ts)" for ts
    unfolding is_verb_def is_attribute_def
    using match_loop_first_verb [of c "[]" ts]
      match_loop_args_verbFirst [of c "[]" ts]
      match_loop_args_any_order [of c "[]" ts]
    by (cases "match_loop c (None, []) ts") auto
  have kept: "fst (match_loop c (Some v, args) tokens) = Some v"
    by (rule match_loop_verb_kept)
  have result: "(\<exists>r. match c a = Some r) \<longleftrightarrow>
      find is_verb (normalizeInput (transcript a)) \<noteq> None \<and>
      (if verbFirst c
       then filter is_attribute (dropWhile (\<lambda>t. \<not> is_verb t) (normalizeInput (transcript a)))
       else filter is_attribute (normalizeInput (transcript a))) \<noteq> []"
    by (simp only: match_Some_iff state fst_conv snd_conv)
  from state [of tokens] kept result show ?thesis
    by (intro conjI)
qed

theorem match_scan_result_witness:
  "match_loop (new_FuzzyCommand ''OPEN'' [''open'', ''show''] [''settings''] True) (None, [])
      [''please'', ''open'', ''settings'', ''show'', ''settings''] =
     (Some ''open'', [''settings'', ''settings'']) \<and>
   match (new_FuzzyCommand ''OPEN'' [''open'', ''show''] [''settings''] True)
      \<lparr>confidence = 0.8, transcript = ''Please open settings, show settings.''\<rparr> =
     Some \<lparr>MatchResult.confidence = 0.8, id_m = ''OPEN''\<rparr>"
proof -
  let ?c = "new_FuzzyCommand ''OPEN'' [''open'', ''show''] [''settings''] True"
  let ?ts = "[''please'', ''open'', ''settings'', ''show'', ''settings'']"
  let ?a = "\<lparr>confidence = 0.8, transcript = ''Please open settings, show settings.''\<rparr>"
  have tokens: "normalizeInput (transcript ?a) = ?ts"
    by code_simp
  have first_verb: "find (dict_truthy (verbs ?c)) ?ts = Some ''open''"
    by code_simp
  have collected: "filter (dict_truthy (attributes ?c))
      (dropWhile (\<lambda>t. \<not> dict_truthy (verbs ?c) t) ?ts) = [''settings'', ''settings'']"
    by code_simp
  have policy: "verbFirst ?c"
    by (simp add: new_FuzzyCommand_def)
  from match_scan_result [of ?c ?ts "''open''" "[]" ?a] tokens first_verb collected policy
  have "match_loop ?c (None, []) ?ts = (Some ''open'', [''settings'', ''settings''])"
    and "\<exists>r. match ?c ?a = Some r"
    by simp_all
  then show ?thesis
    by (auto simp: match_def Let_def new_FuzzyCommand_def split: if_splits)
qed

text \<open>
  C3. With \<open>verbFirst\<close> true, \<open>match\<close> returns a result exactly when some token of the
  attribute set stands at or after a token of the verb set (the token that sets the
  verb is itself tested); with \<open>verbFirst\<close> false, exactly when the transcript has a
  token of the verb set and a token of the attribute set, in any order. For verbs
  \<open>[open]\<close> and attributes \<open>[settings]\<close>: \<open>settings open\<close> does not match under
  \<open>verbFirst\<close> and matches without it, and \<open>please open settings now\<close> matches.
\<close>

theorem verbFirst_policy:
  fixes c :: FuzzyCommand and a :: SpeechRecognitionAlternative
  defines "is_verb \<equiv> dict_truthy (verbs c)"
    and "is_attribute \<equiv> dict_truthy (attributes c)"
    and "tokens \<equiv> normalizeInput (transcript a)"
  shows
  "(verbFirst c \<longrightarrow>
      ((\<exists>r. match c a = Some r) \<longleftrightarrow>
       (\<exists>i j. i \<le> j \<and> j < length tokens \<and> is_verb (tokens ! i) \<and> is_attribute (tokens ! j)))) \<and>
   (\<not> verbFirst c \<longrightarrow>
      ((\<exists>r. match c a = Some r) \<longleftrightarrow>
       (\<exists>i<length tokens. is_verb (tokens ! i)) \<and> (\<exists>j<length tokens. is_attribute (tokens ! j)))) \<and>
   match (new_FuzzyCommand ident [''open''] [''settings''] True)
     \<lparr>confidence = x, transcript = ''settings open''\<rparr> = None \<and>
   match (new_FuzzyCommand ident [''open''] [''settings''] False)
     \<lparr>confidence = x, transcript = ''settings open''\<rparr>
     = Some \<lparr>MatchResult.confidence = x, id_m = ident\<rparr> \<and>
   match (new_FuzzyCommand ident [''open''] [''settings''] True)
     \<lparr>confidence = x, transcript = ''please open settings now''\<rparr>
     = Some \<lparr>MatchResult.confidence = x, id_m = ident\<rparr>"
proof -
  have t1: "normalizeInput ''settings open'' = [''settings'', ''open'']"
    by code_simp
  have t2: "normalizeInput ''please open settings now'' = [''please'', ''open'', ''settings'', ''now'']"
    by code_simp
  have e1: "match (new_FuzzyCommand ident [''open''] [''settings''] True)
     \<lparr>confidence = x, transcript = ''settings open''\<rparr> = None"
    by (simp add: match_def t1 Let_def match_token_def new_FuzzyCommand_def dict_truthy_fill
          Object_prototype_keys_def del: fill_dictionary.simps)
  have e2: "match (new_FuzzyCommand ident [''open''] [''settings''] False)
     \<lparr>confidence = x, transcript = ''settings open''\<rparr>
     = Some \<lparr>MatchResult.confidence = x, id_m = ident\<rparr>"
    by (simp add: match_def t1 Let_def match_token_def new_FuzzyCommand_def dict_truthy_fill
          Object_prototype_keys_def del: fill_dictionary.simps)
  have e3: "match (new_FuzzyCommand ident [''open''] [''settings''] True)
     \<lparr>confidence = x, transcript = ''please open settings now''\<rparr>
     = Some \<lparr>MatchResult.confidence = x, id_m = ident\<rparr>"
    by (simp add: match_def t2 Let_def match_token_def new_FuzzyCommand_def dict_truthy_fill
          Object_prototype_keys_def del: fill_dictionary.simps)
  show ?thesis
    unfolding is_verb_def is_attribute_def tokens_def
    using match_Some_verbFirst [of c a] match_Some_any_order [of c a] e1 e2 e3
    by blast
qed

theorem verbFirst_policy_witness:
  "verbFirst (new_FuzzyCommand ''GO'' [''go''] [''go'', ''home''] True) \<and>
   normalizeInput (transcript \<lparr>confidence = 1, transcript = ''home, GO''\<rparr>) = [''home'', ''go''] \<and>
   match (new_FuzzyCommand ''GO'' [''go''] [''go'', ''home''] True)
     \<lparr>confidence = 1, transcript = ''home, GO''\<rparr> = Some \<lparr>MatchResult.confidence = 1, id_m = ''GO''\<rparr> \<and>
   match (new_FuzzyCommand ''GO'' [''go''] [''home''] True)
     \<lparr>confidence = 1, transcript = ''home, GO''\<rparr> = None \<and>
   \<not> verbFirst (new_FuzzyCommand ''GO'' [''go''] [''home''] False) \<and>
   match (new_FuzzyCommand ''GO'' [''go''] [''home''] False)
     \<lparr>confidence = 1, transcript = ''home, GO''\<rparr> = Some \<lparr>MatchResult.confidence = 1, id_m = ''GO''\<rparr>"
proof -
  let ?c = "new_FuzzyCommand ''GO'' [''go''] [''go'', ''home''] True"
  let ?d = "new_FuzzyCommand ''GO'' [''go''] [''home''] True"
  let ?e = "new_FuzzyCommand ''GO'' [''go''] [''home''] False"
  let ?a = "\<lparr>confidence = 1, transcript = ''home, GO''\<rparr>"
  have policy: "verbFirst ?c" "verbFirst ?d" "\<not> verbFirst ?e"
    by (simp_all add: new_FuzzyCommand_def)
  have tokens: "normalizeInput (transcript ?a) = [''home'', ''go'']"
    by code_simp
  have same_token: "dict_truthy (verbs ?c) ([''home'', ''go''] ! 1)"
      "dict_truthy (attributes ?c) ([''home'', ''go''] ! 1)"
    by code_simp+
  have "\<exists>i j. i \<le> j \<and> j < length (normalizeInput (transcript ?a)) \<and>
      dict_truthy (verbs ?c) (normalizeInput (transcript ?a) ! i) \<and>
      dict_truthy (attributes ?c) (normalizeInput (transcript ?a) ! j)"
    unfolding tokens using same_token by (intro exI [of _ 1]) simp
  with verbFirst_policy [of ?c ?a] policy
  obtain r where r: "match ?c ?a = Some r"
    by blast
  then have m: "match ?c ?a = Some \<lparr>MatchResult.confidence = 1, id_m = ''GO''\<rparr>"
    by (auto simp: match_def Let_def new_FuzzyCommand_def split: if_splits)
  have n: "match ?d ?a = None"
    by code_simp
  have any_order: "dict_truthy (verbs ?e) ([''home'', ''go''] ! 1)"
      "dict_truthy (attributes ?e) ([''home'', ''go''] ! 0)"
    by code_simp+
  have "(\<exists>i<length (normalizeInput (transcript ?a)).
          dict_truthy (verbs ?e) (normalizeInput (transcript ?a) ! i)) \<and>
        (\<exists>j<length (normalizeInput (transcript ?a)).
          dict_truthy (attributes ?e) (normalizeInput (transcript ?a) ! j))"
    unfolding tokens using any_order
    by (intro conjI exI [of _ 1] exI [of _ 0]) simp_all
  with verbFirst_policy [of ?e ?a] policy
  obtain r' where "match ?e ?a = Some r'"
    by blast
  then have m': "match ?e ?a = Some \<lparr>MatchResult.confidence = 1, id_m = ''GO''\<rparr>"
    by (auto simp: match_def Let_def new_FuzzyCommand_def split: if_splits)
  from policy tokens m n m' show ?thesis by simp
qed

text \<open>
  C8, as amended. On an alternative whose transcript is the empty string the tokenizer
  yields the single empty token, and \<open>match\<close> returns none unless the empty string is
  both among the constructor's verbs and among its valid attributes; in that one case it
  returns a result. \<open>match\<close> is a total function into \<open>MatchResult option\<close>: it raises
  nothing.
\<close>

theorem match_empty_transcript:
  "transcript a = [] \<Longrightarrow>
   (match (new_FuzzyCommand ident vs validAttributes vf) a = None \<longleftrightarrow>
      [] \<notin> set vs \<or> [] \<notin> set validAttributes)"
  by (auto simp: match_def Let_def normalizeInput_empty match_token_def new_FuzzyCommand_def
        dict_truthy_fill Object_prototype_keys_def)

theorem match_empty_transcript_witness:
  "transcript \<lparr>confidence = 0.5, transcript = ''''\<rparr> = [] \<and>
   match (new_FuzzyCommand ''OPEN'' [''open'', ''''] [''settings''] False)
     \<lparr>confidence = 0.5, transcript = ''''\<rparr> = None"
  using match_empty_transcript [of "\<lparr>confidence = 0.5, transcript = ''''\<rparr>"
      "''OPEN''" "[''open'', '''']" "[''settings'']" False]
  by simp

theorem match_empty_transcript_counterexample:
  "match (new_FuzzyCommand ''X'' [''''] [''''] True) \<lparr>confidence = 0.5, transcript = ''''\<rparr>
     = Some \<lparr>MatchResult.confidence = 0.5, id_m = ''X''\<rparr>"
  by code_simp

text \<open>
  C9. The dictionary does not behave as the set of the strings passed to the
  constructor: a read of a name that \<open>Object.prototype\<close> defines is truthy although
  the name was never stored. The token \<open>constructor\<close> passes the test of the verbs and
  the test of the attributes of every \<open>FuzzyCommand\<close>, so the transcript
  \<open>constructor\<close> matches every command, whatever its verbs and attributes. For verbs
  \<open>[open]\<close> and attributes \<open>[settings]\<close>, \<open>constructor\<close> is not among the verbs, the
  code returns a result, and the same command over sets of strings returns none.
\<close>

theorem dictionary_inherited_names:
  "match (new_FuzzyCommand ident vs validAttributes vf)
     \<lparr>confidence = x, transcript = ''constructor''\<rparr>
     = Some \<lparr>MatchResult.confidence = x, id_m = ident\<rparr> \<and>
   ''constructor'' \<notin> set [''open''] \<and>
   dict_truthy (verbs (new_FuzzyCommand ''OPEN'' [''open''] [''settings''] True)) ''constructor'' \<and>
   match (new_FuzzyCommand ''OPEN'' [''open''] [''settings''] True)
     \<lparr>confidence = 0.9, transcript = ''constructor''\<rparr>
     = Some \<lparr>MatchResult.confidence = 0.9, id_m = ''OPEN''\<rparr> \<and>
   set_match ''OPEN'' (set [''open'']) (set [''settings'']) True
     \<lparr>confidence = 0.9, transcript = ''constructor''\<rparr> = None"
proof -
  have tokens: "normalizeInput ''constructor'' = [''constructor'']"
    by code_simp
  have inherited: "''constructor'' \<in> set Object_prototype_keys"
    by (simp add: Object_prototype_keys_def)
  have every: "match (new_FuzzyCommand ident vs validAttributes vf)
     \<lparr>confidence = x, transcript = ''constructor''\<rparr>
     = Some \<lparr>MatchResult.confidence = x, id_m = ident\<rparr>"
    using inherited
    by (simp add: match_def tokens Let_def match_token_def new_FuzzyCommand_def
          dict_truthy_fill del: fill_dictionary.simps)
  have concrete: "''constructor'' \<notin> set [''open''] \<and>
   dict_truthy (verbs (new_FuzzyCommand ''OPEN'' [''open''] [''settings''] True)) ''constructor'' \<and>
   match (new_FuzzyCommand ''OPEN'' [''open''] [''settings''] True)
     \<lparr>confidence = 0.9, transcript = ''constructor''\<rparr>
     = Some \<lparr>MatchResult.confidence = 0.9, id_m = ''OPEN''\<rparr> \<and>
   set_match ''OPEN'' (set [''open'']) (set [''settings'']) True
     \<lparr>confidence = 0.9, transcript = ''constructor''\<rparr> = None"
    by code_simp
  from every concrete show ?thesis by (rule conjI)
qed

text \<open>
  The two agree on every transcript none of whose tokens is a property name of
  \<open>Object.prototype\<close>.
\<close>

lemma match_eq_set_match:
  assumes "\<forall>t\<in>set (normalizeInput (transcript a)). t \<notin> set Object_prototype_keys"
  shows "match (new_FuzzyCommand ident vs validAttributes vf) a =
     set_match ident (set vs) (set validAttributes) vf a"
proof -
  let ?c = "new_FuzzyCommand ident vs validAttributes vf"
  let ?ts = "normalizeInput (transcript a)"
  have V: "\<And>t. t \<in> set ?ts \<Longrightarrow> dict_truthy (verbs ?c) t \<longleftrightarrow> t \<in> set vs"
    and A: "\<And>t. t \<in> set ?ts \<Longrightarrow> dict_truthy (attributes ?c) t \<longleftrightarrow> t \<in> set validAttributes"
    using assms by (auto simp: new_FuzzyCommand_def dict_truthy_fill)
  have f: "find (dict_truthy (verbs ?c)) ?ts = find (\<lambda>t. t \<in> set vs) ?ts"
    using V by (intro find_cong) auto
  have d: "dropWhile (\<lambda>t. \<not> dict_truthy (verbs ?c) t) ?ts = dropWhile (\<lambda>t. t \<notin> set vs) ?ts"
    using V by (intro dropWhile_cong) auto
  have g: "filter (dict_truthy (attributes ?c)) ?ts = filter (\<lambda>t. t \<in> set validAttributes) ?ts"
    using A by (intro filter_cong) auto
  have h: "filter (dict_truthy (attributes ?c)) (dropWhile (\<lambda>t. t \<notin> set vs) ?ts)
      = filter (\<lambda>t. t \<in> set validAttributes) (dropWhile (\<lambda>t. t \<notin> set vs) ?ts)"
    using A by (intro filter_cong) (auto dest: set_dropWhileD)
  have st: "match_loop ?c (None, []) ?ts =
     (find (\<lambda>t. t \<in> set vs) ?ts,
      if vf then filter (\<lambda>t. t \<in> set validAttributes) (dropWhile (\<lambda>t. t \<notin> set vs) ?ts)
      else filter (\<lambda>t. t \<in> set validAttributes) ?ts)"
    using match_loop_first_verb [of ?c "[]" ?ts]
      match_loop_args_verbFirst [of ?c "[]" ?ts]
      match_loop_args_any_order [of ?c "[]" ?ts] f d g h
    by (cases "match_loop ?c (None, []) ?ts") (auto simp: new_FuzzyCommand_def)
  show ?thesis
    by (simp add: match_def set_match_def Let_def st) (simp add: new_FuzzyCommand_def)
qed

subsection \<open>The loops of \<open>parse\<close>\<close>

lemma keep_best_append:
  "keep_best best (xs @ ys) = keep_best (keep_best best xs) ys"
  by (induction xs arbitrary: best) simp_all

lemma keep_best_unchanged:
  "\<forall>later\<in>set rest. confidence (snd later) \<le> MatchResult.confidence (fst best) \<Longrightarrow>
   keep_best best rest = best"
  by (induction rest) (simp_all add: not_less [symmetric])

lemma keep_best_mem: "keep_best best rest \<in> set (best # rest)"
  by (induction rest arbitrary: best) (auto split: if_splits)

lemma commands_loop_after_match:
  "commands_loop alternative (Some bm, Some ba) commands =
     chosen (keep_best (bm, ba) (command_matches alternative commands))"
proof (induction commands arbitrary: bm ba)
  case Nil
  show ?case by (simp add: chosen_def)
next
  case (Cons command commands)
  show ?case
  proof (cases "command alternative")
    case None
    then show ?thesis using Cons.IH by (simp add: try_command_def)
  next
    case (Some m)
    then show ?thesis using Cons.IH by (simp add: try_command_def)
  qed
qed

lemma commands_loop_before_match:
  "commands_loop alternative (None, h) commands =
     (case command_matches alternative commands of
        [] \<Rightarrow> (None, h)
      | first # later \<Rightarrow> chosen (keep_best first later))"
proof (induction commands)
  case Nil
  show ?case by simp
next
  case (Cons command commands)
  show ?case
  proof (cases "command alternative")
    case None
    then show ?thesis using Cons.IH by (simp add: try_command_def)
  next
    case (Some m)
    then show ?thesis by (simp add: try_command_def commands_loop_after_match)
  qed
qed

lemma alternatives_loop_after_match:
  "alternatives_loop commands (Some bm, Some ba) vals =
     chosen (keep_best (bm, ba) (all_matches vals commands))"
proof (induction vals arbitrary: bm ba)
  case Nil
  show ?case by (simp add: chosen_def)
next
  case (Cons alternative vals)
  have "parse_alternative commands (Some bm, Some ba) alternative =
          chosen (keep_best (bm, ba) (command_matches alternative commands))"
    by (simp add: parse_alternative_def commands_loop_after_match)
  then show ?case
    using Cons.IH [of "fst (keep_best (bm, ba) (command_matches alternative commands))"
                      "snd (keep_best (bm, ba) (command_matches alternative commands))"]
    by (simp add: chosen_def keep_best_append)
qed

lemma alternatives_loop_before_match:
  "alternatives_loop commands (None, h) vals =
     (case all_matches vals commands of
        [] \<Rightarrow> (None, promote h vals)
      | first # later \<Rightarrow> chosen (keep_best first later))"
proof (induction vals arbitrary: h)
  case Nil
  show ?case by simp
next
  case (Cons alternative vals)
  define h2 where "h2 = (case h of None \<Rightarrow> alternative
                    | Some b \<Rightarrow> if confidence b < confidence alternative then alternative else b)"
  have step: "parse_alternative commands (None, h) alternative =
          commands_loop alternative (None, Some h2) commands"
    by (cases h) (simp_all add: parse_alternative_def h2_def Let_def)
  show ?case
  proof (cases "command_matches alternative commands")
    case Nil
    then show ?thesis
      using Cons.IH [of "Some h2"] step
      unfolding h2_def by (simp add: commands_loop_before_match split: list.splits)
  next
    case (Cons first later)
    then show ?thesis
      using step
      by (simp add: commands_loop_before_match chosen_def
            alternatives_loop_after_match keep_best_append)
  qed
qed

lemma parse_by_matches:
  "parse vals commands =
     (case all_matches vals commands of
        [] \<Rightarrow> (None, promote None vals)
      | first # later \<Rightarrow> chosen (keep_best first later))"
  by (simp add: parse_def alternatives_loop_before_match)

lemma all_matches_append:
  "all_matches (xs @ ys) commands = all_matches xs commands @ all_matches ys commands"
  by (induction xs) simp_all

lemma command_matches_empty:
  "command_matches alternative commands = [] \<longleftrightarrow> (\<forall>c\<in>set commands. c alternative = None)"
  by (induction commands) (auto split: option.splits)

lemma command_matches_mem:
  "(m, a) \<in> set (command_matches alternative commands) \<longleftrightarrow>
     a = alternative \<and> (\<exists>c\<in>set commands. c alternative = Some m)"
  by (induction commands) (auto split: option.splits)

lemma all_matches_mem:
  "(m, a) \<in> set (all_matches vals commands) \<longleftrightarrow>
     a \<in> set vals \<and> (\<exists>c\<in>set commands. c a = Some m)"
  by (induction vals) (auto simp: command_matches_mem)

lemma all_matches_no_commands: "all_matches vals [] = []"
  by (induction vals) simp_all

lemma promote_snoc:
  "promote h (vals @ [alternative]) =
     Some (case promote h vals of None \<Rightarrow> alternative
           | Some b \<Rightarrow> if confidence b < confidence alternative then alternative else b)"
  by (induction vals arbitrary: h) simp_all

lemma promote_first_max:
  "vals \<noteq> [] \<Longrightarrow>
   \<exists>i<length vals. promote None vals = Some (vals ! i) \<and>
      (\<forall>j<length vals. confidence (vals ! j) \<le> confidence (vals ! i)) \<and>
      (\<forall>j<i. confidence (vals ! j) < confidence (vals ! i))"
proof (induction vals rule: rev_nonempty_induct)
  case (single a)
  show ?case by simp
next
  case (snoc a vals)
  then obtain i where i: "i < length vals" "promote None vals = Some (vals ! i)"
      "\<forall>j<length vals. confidence (vals ! j) \<le> confidence (vals ! i)"
      "\<forall>j<i. confidence (vals ! j) < confidence (vals ! i)"
    by blast
  show ?case
  proof (cases "confidence (vals ! i) < confidence a")
    case True
    have "promote None (vals @ [a]) = Some ((vals @ [a]) ! length vals)"
      using i True by (simp add: promote_snoc)
    moreover have "\<forall>j<length (vals @ [a]). confidence ((vals @ [a]) ! j) \<le> confidence ((vals @ [a]) ! length vals)"
      using i True by (auto simp: nth_append less_Suc_eq intro: order_trans less_imp_le)
    moreover have "\<forall>j<length vals. confidence ((vals @ [a]) ! j) < confidence ((vals @ [a]) ! length vals)"
      using i True by (auto simp: nth_append intro: le_less_trans)
    ultimately show ?thesis
      by (intro exI[of _ "length vals"]) simp
  next
    case False
    have "promote None (vals @ [a]) = Some ((vals @ [a]) ! i)"
      using i False by (simp add: promote_snoc nth_append)
    moreover have "\<forall>j<length (vals @ [a]). confidence ((vals @ [a]) ! j) \<le> confidence ((vals @ [a]) ! i)"
      using i False by (auto simp: nth_append less_Suc_eq)
    moreover have "\<forall>j<i. confidence ((vals @ [a]) ! j) < confidence ((vals @ [a]) ! i)"
      using i by (auto simp: nth_append)
    ultimately show ?thesis
      using i(1) by (intro exI[of _ i]) simp
  qed
qed

subsection \<open>What \<open>parse\<close> returns\<close>

text \<open>
  C1. One round of the inner loop of \<open>parse\<close> adopts a match unconditionally while no
  match is held, setting both components from it; while a match is held it adopts a new
  one only if the alternative's confidence is strictly greater than the held match's.
  Over a whole run, with the matches taken in the order the loops meet them: \<open>parse\<close>
  holds no match if there is none, and otherwise returns what the selection rule keeps
  from the first match on. Whatever match is held after the matches seen so far, it is
  returned if no later match comes from an alternative of confidence strictly above its
  own: a tie never displaces a match seen earlier, the first one in particular.
\<close>

theorem parse_selection_rule:
  "try_command alternative (None, h) command =
     (case command alternative of None \<Rightarrow> (None, h) | Some m \<Rightarrow> (Some m, Some alternative)) \<and>
   try_command alternative (Some bm, h) command =
     (case command alternative of
        None \<Rightarrow> (Some bm, h)
      | Some m \<Rightarrow> if MatchResult.confidence bm < confidence alternative
                  then (Some m, Some alternative) else (Some bm, h)) \<and>
   (all_matches vals commands = [] \<longrightarrow> fst (parse vals commands) = None) \<and>
   (\<forall>first later. all_matches vals commands = first # later \<longrightarrow>
       parse vals commands = chosen (keep_best first later)) \<and>
   (\<forall>first seen later.
       all_matches vals commands = first # seen @ later \<and>
       (\<forall>l\<in>set later.
          confidence (snd l) \<le> MatchResult.confidence (fst (keep_best first seen))) \<longrightarrow>
       parse vals commands = chosen (keep_best first seen))"
proof (intro conjI allI impI)
  show "try_command alternative (None, h) command =
     (case command alternative of None \<Rightarrow> (None, h) | Some m \<Rightarrow> (Some m, Some alternative))"
    by (simp add: try_command_def split: option.splits)
  show "try_command alternative (Some bm, h) command =
     (case command alternative of
        None \<Rightarrow> (Some bm, h)
      | Some m \<Rightarrow> if MatchResult.confidence bm < confidence alternative
                  then (Some m, Some alternative) else (Some bm, h))"
    by (simp add: try_command_def split: option.splits)
  show "fst (parse vals commands) = None" if "all_matches vals commands = []"
    using that by (simp add: parse_by_matches)
  show "parse vals commands = chosen (keep_best first later)"
    if "all_matches vals commands = first # later" for first later
    using that by (simp add: parse_by_matches)
  show "parse vals commands = chosen (keep_best first seen)"
    if "all_matches vals commands = first # seen @ later \<and>
       (\<forall>l\<in>set later.
          confidence (snd l) \<le> MatchResult.confidence (fst (keep_best first seen)))"
    for first seen later
    using that by (simp add: parse_by_matches keep_best_append keep_best_unchanged)
qed

theorem parse_selection_rule_witness:
  "all_matches
     [\<lparr>confidence = 0.4, transcript = ''open settings''\<rparr>,
      \<lparr>confidence = 0.9, transcript = ''close settings''\<rparr>,
      \<lparr>confidence = 0.9, transcript = ''open settings''\<rparr>]
     [match (new_FuzzyCommand ''OPEN'' [''open''] [''settings''] True),
      match (new_FuzzyCommand ''CLOSE'' [''close''] [''settings''] True)] =
     [(\<lparr>MatchResult.confidence = 0.4, id_m = ''OPEN''\<rparr>,
         \<lparr>confidence = 0.4, transcript = ''open settings''\<rparr>),
      (\<lparr>MatchResult.confidence = 0.9, id_m = ''CLOSE''\<rparr>,
         \<lparr>confidence = 0.9, transcript = ''close settings''\<rparr>),
      (\<lparr>MatchResult.confidence = 0.9, id_m = ''OPEN''\<rparr>,
         \<lparr>confidence = 0.9, transcript = ''open settings''\<rparr>)] \<and>
   parse
     [\<lparr>confidence = 0.4, transcript = ''open settings''\<rparr>,
      \<lparr>confidence = 0.9, transcript = ''close settings''\<rparr>,
      \<lparr>confidence = 0.9, transcript = ''open settings''\<rparr>]
     [match (new_FuzzyCommand ''OPEN'' [''open''] [''settings''] True),
      match (new_FuzzyCommand ''CLOSE'' [''close''] [''settings''] True)] =
     (Some \<lparr>MatchResult.confidence = 0.9, id_m = ''CLOSE''\<rparr>,
      Some \<lparr>confidence = 0.9, transcript = ''close settings''\<rparr>) \<and>
   all_matches [\<lparr>confidence = 0.4, transcript = ''hello world''\<rparr>]
     [match (new_FuzzyCommand ''OPEN'' [''open''] [''settings''] True)] = [] \<and>
   fst (parse [\<lparr>confidence = 0.4, transcript = ''hello world''\<rparr>]
     [match (new_FuzzyCommand ''OPEN'' [''open''] [''settings''] True)]) = None"
proof -
  let ?vals = "[\<lparr>confidence = 0.4, transcript = ''open settings''\<rparr>,
      \<lparr>confidence = 0.9, transcript = ''close settings''\<rparr>,
      \<lparr>confidence = 0.9, transcript = ''open settings''\<rparr>]"
  let ?commands = "[match (new_FuzzyCommand ''OPEN'' [''open''] [''settings''] True),
      match (new_FuzzyCommand ''CLOSE'' [''close''] [''settings''] True)]"
  let ?first = "(\<lparr>MatchResult.confidence = 0.4, id_m = ''OPEN''\<rparr>,
         \<lparr>confidence = 0.4, transcript = ''open settings''\<rparr>)"
  let ?second = "(\<lparr>MatchResult.confidence = 0.9, id_m = ''CLOSE''\<rparr>,
         \<lparr>confidence = 0.9, transcript = ''close settings''\<rparr>)"
  let ?third = "(\<lparr>MatchResult.confidence = 0.9, id_m = ''OPEN''\<rparr>,
         \<lparr>confidence = 0.9, transcript = ''open settings''\<rparr>)"
  let ?other = "[\<lparr>confidence = 0.4, transcript = ''hello world''\<rparr>]"
  let ?open = "[match (new_FuzzyCommand ''OPEN'' [''open''] [''settings''] True)]"
  have ms: "all_matches ?vals ?commands = [?first, ?second, ?third]"
    by code_simp
  have held: "keep_best ?first [?second] = ?second"
    by simp
  have "all_matches ?vals ?commands = ?first # [?second] @ [?third] \<and>
      (\<forall>l\<in>set [?third].
          confidence (snd l) \<le> MatchResult.confidence (fst (keep_best ?first [?second])))"
    using ms by (simp only: held) simp
  with parse_selection_rule [of _ _ _ _ ?vals ?commands]
  have "parse ?vals ?commands = chosen (keep_best ?first [?second])"
    by blast
  then have tie: "parse ?vals ?commands = chosen ?second"
    by (simp only: held)
  have none: "all_matches ?other ?open = []"
    by code_simp
  with parse_selection_rule [of _ _ _ _ ?other ?open]
  have "fst (parse ?other ?open) = None"
    by blast
  with ms tie none show ?thesis
    by (simp add: chosen_def)
qed

text \<open>
  C6. On the empty list of alternatives \<open>parse\<close> returns \<open>(none, none)\<close> whatever the
  commands. With no commands and a non-empty list of alternatives it returns no match
  and the alternative of highest confidence, the first of them when several share it.
\<close>

theorem parse_empty_inputs:
  "parse [] commands = (None, None) \<and>
   (vals \<noteq> [] \<longrightarrow>
      (\<exists>i<length vals. parse vals [] = (None, Some (vals ! i)) \<and>
         (\<forall>j<length vals. confidence (vals ! j) \<le> confidence (vals ! i)) \<and>
         (\<forall>j<i. confidence (vals ! j) < confidence (vals ! i))))"
proof (intro conjI impI)
  show "parse [] commands = (None, None)"
    by (simp add: parse_def)
  show "\<exists>i<length vals. parse vals [] = (None, Some (vals ! i)) \<and>
         (\<forall>j<length vals. confidence (vals ! j) \<le> confidence (vals ! i)) \<and>
         (\<forall>j<i. confidence (vals ! j) < confidence (vals ! i))"
    if "vals \<noteq> []"
    using promote_first_max [OF that]
    by (simp add: parse_by_matches all_matches_no_commands)
qed

theorem parse_empty_inputs_witness:
  "parse [\<lparr>confidence = 0.2, transcript = ''x''\<rparr>, \<lparr>confidence = 0.7, transcript = ''y''\<rparr>,
          \<lparr>confidence = 0.7, transcript = ''z''\<rparr>] []
     = (None, Some \<lparr>confidence = 0.7, transcript = ''y''\<rparr>)"
proof -
  let ?vals = "[\<lparr>confidence = 0.2, transcript = ''x''\<rparr>, \<lparr>confidence = 0.7, transcript = ''y''\<rparr>,
          \<lparr>confidence = 0.7, transcript = ''z''\<rparr>]"
  have "?vals \<noteq> []" by simp
  with parse_empty_inputs [of _ ?vals]
  obtain i where i: "i < length ?vals" "parse ?vals [] = (None, Some (?vals ! i))"
      "\<forall>j<length ?vals. confidence (?vals ! j) \<le> confidence (?vals ! i)"
      "\<forall>j<i. confidence (?vals ! j) < confidence (?vals ! i)"
    by blast
  from i(1) have "i = 0 \<or> i = 1 \<or> i = 2" by auto
  then have "i = 1"
  proof (elim disjE)
    assume "i = 0"
    with i(3) [rule_format, of 1] show ?thesis by simp
  next
    assume "i = 1"
    then show ?thesis .
  next
    assume "i = 2"
    with i(4) [rule_format, of 1] show ?thesis by simp
  qed
  with i(2) show ?thesis by simp
qed

text \<open>
  C7. Once a match has been found among the alternatives \<open>before\<close>, an alternative that
  matches no command changes nothing: the run with it and the run without it return
  the same pair, whatever follows. And if processing one more alternative changes the
  second component, then that alternative matched a command and both components were
  replaced together, by that match and that alternative.
\<close>

theorem parse_unmatched_after_match:
  assumes "fst (parse before commands) \<noteq> None"
  shows "((\<forall>c\<in>set commands. c alternative = None) \<longrightarrow>
            parse (before @ alternative # after) commands = parse (before @ after) commands) \<and>
         (snd (parse (before @ [alternative]) commands) \<noteq> snd (parse before commands) \<longrightarrow>
            (\<exists>c\<in>set commands. \<exists>m. c alternative = Some m \<and>
               parse (before @ [alternative]) commands = (Some m, Some alternative)))"
proof -
  from assms obtain first later where ms: "all_matches before commands = first # later"
    by (cases "all_matches before commands") (simp_all add: parse_by_matches)
  define best where "best = keep_best first later"
  have before: "parse before commands = chosen best"
    by (simp add: parse_by_matches ms best_def)
  have with_alt: "parse (before @ [alternative]) commands =
      chosen (keep_best best (command_matches alternative commands))"
    by (simp add: parse_by_matches all_matches_append ms best_def keep_best_append)
  have skip: "parse (before @ alternative # after) commands = parse (before @ after) commands"
    if "\<forall>c\<in>set commands. c alternative = None"
  proof -
    from that have "command_matches alternative commands = []"
      by (simp add: command_matches_empty)
    then show ?thesis
      by (simp add: parse_by_matches all_matches_append ms)
  qed
  have change: "\<exists>c\<in>set commands. \<exists>m. c alternative = Some m \<and>
               parse (before @ [alternative]) commands = (Some m, Some alternative)"
    if "snd (parse (before @ [alternative]) commands) \<noteq> snd (parse before commands)"
  proof -
    let ?new = "keep_best best (command_matches alternative commands)"
    from that have "?new \<noteq> best"
      by (auto simp: before with_alt chosen_def)
    with keep_best_mem [of best "command_matches alternative commands"]
    have "?new \<in> set (command_matches alternative commands)"
      by simp
    then have "(fst ?new, snd ?new) \<in> set (command_matches alternative commands)"
      by simp
    then have "snd ?new = alternative" "\<exists>c\<in>set commands. c alternative = Some (fst ?new)"
      by (simp_all only: command_matches_mem)
    then show ?thesis
      by (auto simp: with_alt chosen_def)
  qed
  from skip change show ?thesis by blast
qed

theorem parse_unmatched_after_match_witness:
  "fst (parse [\<lparr>confidence = 0.4, transcript = ''open settings''\<rparr>]
          [match (new_FuzzyCommand ''OPEN'' [''open''] [''settings''] True)])
     = Some \<lparr>MatchResult.confidence = 0.4, id_m = ''OPEN''\<rparr> \<and>
   match (new_FuzzyCommand ''OPEN'' [''open''] [''settings''] True)
     \<lparr>confidence = 0.9, transcript = ''hello world''\<rparr> = None \<and>
   parse [\<lparr>confidence = 0.4, transcript = ''open settings''\<rparr>,
          \<lparr>confidence = 0.9, transcript = ''hello world''\<rparr>]
         [match (new_FuzzyCommand ''OPEN'' [''open''] [''settings''] True)]
     = (Some \<lparr>MatchResult.confidence = 0.4, id_m = ''OPEN''\<rparr>,
        Some \<lparr>confidence = 0.4, transcript = ''open settings''\<rparr>) \<and>
   snd (parse [\<lparr>confidence = 0.4, transcript = ''open settings''\<rparr>,
               \<lparr>confidence = 0.9, transcript = ''open the settings''\<rparr>]
          [match (new_FuzzyCommand ''OPEN'' [''open''] [''settings''] True)])
     \<noteq> snd (parse [\<lparr>confidence = 0.4, transcript = ''open settings''\<rparr>]
          [match (new_FuzzyCommand ''OPEN'' [''open''] [''settings''] True)]) \<and>
   (\<exists>m. match (new_FuzzyCommand ''OPEN'' [''open''] [''settings''] True)
          \<lparr>confidence = 0.9, transcript = ''open the settings''\<rparr> = Some m \<and>
        parse [\<lparr>confidence = 0.4, transcript = ''open settings''\<rparr>,
               \<lparr>confidence = 0.9, transcript = ''open the settings''\<rparr>]
          [match (new_FuzzyCommand ''OPEN'' [''open''] [''settings''] True)]
        = (Some m, Some \<lparr>confidence = 0.9, transcript = ''open the settings''\<rparr>))"
proof -
  let ?a = "\<lparr>confidence = 0.4, transcript = ''open settings''\<rparr>"
  let ?b = "\<lparr>confidence = 0.9, transcript = ''hello world''\<rparr>"
  let ?b' = "\<lparr>confidence = 0.9, transcript = ''open the settings''\<rparr>"
  let ?c = "match (new_FuzzyCommand ''OPEN'' [''open''] [''settings''] True)"
  have before: "parse [?a] [?c] = (Some \<lparr>MatchResult.confidence = 0.4, id_m = ''OPEN''\<rparr>, Some ?a)"
    by code_simp
  have unmatched: "?c ?b = None"
    by code_simp
  from before have found: "fst (parse [?a] [?c]) \<noteq> None" by simp
  from parse_unmatched_after_match [OF found, of ?b "[]"] unmatched
  have same: "parse [?a, ?b] [?c] = parse [?a] [?c]" by simp
  have "snd (parse [?a, ?b'] [?c]) = Some ?b'"
    by code_simp
  with before have changed: "snd (parse ([?a] @ [?b']) [?c]) \<noteq> snd (parse [?a] [?c])"
    by simp
  with parse_unmatched_after_match [OF found, of ?b' "[]"]
  have "\<exists>c\<in>set [?c]. \<exists>m. c ?b' = Some m \<and> parse ([?a] @ [?b']) [?c] = (Some m, Some ?b')"
    by blast
  then have together: "\<exists>m. ?c ?b' = Some m \<and> parse [?a, ?b'] [?c] = (Some m, Some ?b')"
    by simp
  from before unmatched same changed together show ?thesis
    by simp
qed

lemma parse_result_origin:
  assumes "vals \<noteq> []"
  shows "\<exists>a\<in>set vals. snd (parse vals commands) = Some a \<and>
           (\<forall>m. fst (parse vals commands) = Some m \<longrightarrow> (\<exists>c\<in>set commands. c a = Some m))"
proof (cases "all_matches vals commands")
  case Nil
  from promote_first_max [OF assms] obtain i
    where "i < length vals" "promote None vals = Some (vals ! i)"
    by blast
  with Nil show ?thesis
    by (auto simp: parse_by_matches)
next
  case (Cons first later)
  let ?best = "keep_best first later"
  have "(fst ?best, snd ?best) \<in> set (all_matches vals commands)"
    using keep_best_mem [of first later] Cons by simp
  then have "snd ?best \<in> set vals" "\<exists>c\<in>set commands. c (snd ?best) = Some (fst ?best)"
    by (simp_all only: all_matches_mem)
  with Cons show ?thesis
    by (auto simp: parse_by_matches chosen_def)
qed

lemma parse_result_copied:
  assumes "vals \<noteq> []"
  shows "\<exists>a\<in>set vals. snd (parse vals commands) = Some a \<and>
      (\<forall>m. fst (parse vals commands) = Some m \<longrightarrow>
         (\<exists>c\<in>set commands. c a = Some m) \<and>
         ((\<forall>c\<in>set commands. \<forall>b r. c b = Some r \<longrightarrow> MatchResult.confidence r = confidence b) \<longrightarrow>
            MatchResult.confidence m = confidence a))"
proof -
  from parse_result_origin [OF assms, of commands]
  obtain a where a: "a \<in> set vals" "snd (parse vals commands) = Some a"
      "\<And>m. fst (parse vals commands) = Some m \<Longrightarrow> \<exists>c\<in>set commands. c a = Some m"
    by blast
  have "(\<exists>c\<in>set commands. c a = Some m) \<and>
         ((\<forall>c\<in>set commands. \<forall>b r. c b = Some r \<longrightarrow> MatchResult.confidence r = confidence b) \<longrightarrow>
            MatchResult.confidence m = confidence a)"
    if m: "fst (parse vals commands) = Some m" for m
  proof (intro conjI impI)
    from a(3) [OF m] show "\<exists>c\<in>set commands. c a = Some m" .
    assume copy: "\<forall>c\<in>set commands. \<forall>b r. c b = Some r \<longrightarrow> MatchResult.confidence r = confidence b"
    from a(3) [OF m] obtain c where c: "c \<in> set commands" "c a = Some m"
      by (elim bexE)
    from copy c(1) have "\<forall>b r. c b = Some r \<longrightarrow> MatchResult.confidence r = confidence b"
      by (rule bspec)
    with c(2) show "MatchResult.confidence m = confidence a"
      by simp
  qed
  then have "\<forall>m. fst (parse vals commands) = Some m \<longrightarrow>
         (\<exists>c\<in>set commands. c a = Some m) \<and>
         ((\<forall>c\<in>set commands. \<forall>b r. c b = Some r \<longrightarrow> MatchResult.confidence r = confidence b) \<longrightarrow>
            MatchResult.confidence m = confidence a)"
    by (intro allI impI)
  with a(2) have "snd (parse vals commands) = Some a \<and>
      (\<forall>m. fst (parse vals commands) = Some m \<longrightarrow>
         (\<exists>c\<in>set commands. c a = Some m) \<and>
         ((\<forall>c\<in>set commands. \<forall>b r. c b = Some r \<longrightarrow> MatchResult.confidence r = confidence b) \<longrightarrow>
            MatchResult.confidence m = confidence a))"
    by (rule conjI)
  with a(1) show ?thesis
    by (rule bexI [rotated])
qed

lemma match_copies:
  "\<forall>c\<in>set (map match cs). \<forall>b r. c b = Some r \<longrightarrow> MatchResult.confidence r = confidence b"
proof (intro ballI allI impI)
  fix c b r
  assume "c \<in> set (map match cs)" and r: "c b = Some r"
  then obtain d where "c = match d"
    by auto
  with r have "match d b = Some r"
    by simp
  then have "r = \<lparr>MatchResult.confidence = confidence b, id_m = id_c d\<rparr>"
    by (rule match_result)
  then show "MatchResult.confidence r = confidence b"
    by simp
qed

lemma parse_result_fuzzy:
  assumes "vals \<noteq> []"
  shows "\<exists>a\<in>set vals. snd (parse vals (map match cs)) = Some a \<and>
      (\<forall>m. fst (parse vals (map match cs)) = Some m \<longrightarrow>
         (\<exists>c\<in>set cs. match c a = Some m) \<and> MatchResult.confidence m = confidence a)"
proof -
  from parse_result_origin [OF assms, of "map match cs"]
  obtain a where a: "a \<in> set vals" "snd (parse vals (map match cs)) = Some a"
      "\<And>m. fst (parse vals (map match cs)) = Some m \<Longrightarrow>
         \<exists>c\<in>set (map match cs). c a = Some m"
    by blast
  have "(\<exists>c\<in>set cs. match c a = Some m) \<and> MatchResult.confidence m = confidence a"
    if m: "fst (parse vals (map match cs)) = Some m" for m
  proof -
    from a(3) [OF m] obtain c where c: "c \<in> set cs" "match c a = Some m"
      by auto
    from c(2) have "m = \<lparr>MatchResult.confidence = confidence a, id_m = id_c c\<rparr>"
      by (rule match_result)
    then have "MatchResult.confidence m = confidence a"
      by simp
    with c show ?thesis
      by (intro conjI bexI [of _ c])
  qed
  then have "\<forall>m. fst (parse vals (map match cs)) = Some m \<longrightarrow>
         (\<exists>c\<in>set cs. match c a = Some m) \<and> MatchResult.confidence m = confidence a"
    by (intro allI impI)
  with a(2) have "snd (parse vals (map match cs)) = Some a \<and>
      (\<forall>m. fst (parse vals (map match cs)) = Some m \<longrightarrow>
         (\<exists>c\<in>set cs. match c a = Some m) \<and> MatchResult.confidence m = confidence a)"
    by (rule conjI)
  with a(1) show ?thesis
    by (rule bexI [rotated])
qed

text \<open>
  C10, as amended. On a non-empty list of alternatives \<open>parse\<close> returns an alternative
  of the list and, when it returns a match, some command of the list produced that
  match on the returned alternative. If every command of the list copies the
  alternative's confidence into its result, the match's confidence is the returned
  alternative's confidence; every \<open>FuzzyCommand\<close> does, so this holds for every list of
  \<open>FuzzyCommand\<close>s. A command that reports a confidence of its own breaks the equality.
\<close>

theorem parse_result_pairing:
  "vals \<noteq> [] \<Longrightarrow>
   (\<exists>a\<in>set vals. snd (parse vals commands) = Some a \<and>
      (\<forall>m. fst (parse vals commands) = Some m \<longrightarrow>
         (\<exists>c\<in>set commands. c a = Some m) \<and>
         ((\<forall>c\<in>set commands. \<forall>b r. c b = Some r \<longrightarrow> MatchResult.confidence r = confidence b) \<longrightarrow>
            MatchResult.confidence m = confidence a))) \<and>
   (\<exists>a\<in>set vals. snd (parse vals (map match cs)) = Some a \<and>
      (\<forall>m. fst (parse vals (map match cs)) = Some m \<longrightarrow>
         (\<exists>c\<in>set cs. match c a = Some m) \<and> MatchResult.confidence m = confidence a))"
  by (intro conjI parse_result_copied parse_result_fuzzy)

theorem parse_result_pairing_witness:
  "snd (parse [\<lparr>confidence = 0.4, transcript = ''open settings''\<rparr>,
               \<lparr>confidence = 0.9, transcript = ''close settings''\<rparr>]
          (map match [new_FuzzyCommand ''OPEN'' [''open''] [''settings''] True,
                      new_FuzzyCommand ''CLOSE'' [''close''] [''settings''] True]))
     = Some \<lparr>confidence = 0.9, transcript = ''close settings''\<rparr> \<and>
   fst (parse [\<lparr>confidence = 0.4, transcript = ''open settings''\<rparr>,
               \<lparr>confidence = 0.9, transcript = ''close settings''\<rparr>]
          (map match [new_FuzzyCommand ''OPEN'' [''open''] [''settings''] True,
                      new_FuzzyCommand ''CLOSE'' [''close''] [''settings''] True]))
     = Some \<lparr>MatchResult.confidence = 0.9, id_m = ''CLOSE''\<rparr> \<and>
   MatchResult.confidence \<lparr>MatchResult.confidence = 0.9, id_m = ''CLOSE''\<rparr>
     = confidence \<lparr>confidence = 0.9, transcript = ''close settings''\<rparr>"
proof -
  let ?vals = "[\<lparr>confidence = 0.4, transcript = ''open settings''\<rparr>,
               \<lparr>confidence = 0.9, transcript = ''close settings''\<rparr>]"
  let ?cs = "[new_FuzzyCommand ''OPEN'' [''open''] [''settings''] True,
              new_FuzzyCommand ''CLOSE'' [''close''] [''settings''] True]"
  let ?m = "\<lparr>MatchResult.confidence = 0.9, id_m = ''CLOSE''\<rparr>"
  have result: "parse ?vals (map match ?cs) =
      (Some ?m, Some \<lparr>confidence = 0.9, transcript = ''close settings''\<rparr>)"
    by code_simp
  have nonempty: "?vals \<noteq> []" by simp
  note copying = match_copies [of ?cs]
  from parse_result_pairing [OF nonempty, of "map match ?cs" "[]", THEN conjunct1]
  obtain a where a: "snd (parse ?vals (map match ?cs)) = Some a"
      "\<forall>m. fst (parse ?vals (map match ?cs)) = Some m \<longrightarrow>
         (\<exists>c\<in>set (map match ?cs). c a = Some m) \<and>
         ((\<forall>c\<in>set (map match ?cs). \<forall>b r. c b = Some r \<longrightarrow>
              MatchResult.confidence r = confidence b) \<longrightarrow>
            MatchResult.confidence m = confidence a)"
    by (elim bexE conjE)
  from a(1) have alt: "a = \<lparr>confidence = 0.9, transcript = ''close settings''\<rparr>"
    by (simp only: result snd_conv option.inject)
  have "fst (parse ?vals (map match ?cs)) = Some ?m"
    by (simp only: result fst_conv)
  with a(2) have "(\<forall>c\<in>set (map match ?cs). \<forall>b r. c b = Some r \<longrightarrow>
              MatchResult.confidence r = confidence b) \<longrightarrow>
            MatchResult.confidence ?m = confidence a"
    by (elim allE [of _ ?m] impE) (assumption, elim conjE)
  with copying have "MatchResult.confidence ?m = confidence a"
    by (elim impE)
  with alt result show ?thesis
    by (simp only: fst_conv snd_conv simp_thms)
qed

theorem parse_result_pairing_counterexample:
  "parse [\<lparr>confidence = 0.9, transcript = ''a''\<rparr>, \<lparr>confidence = 0.5, transcript = ''b''\<rparr>]
         [\<lambda>alternative. Some \<lparr>MatchResult.confidence = 0.1, id_m = ''K''\<rparr>]
     = (Some \<lparr>MatchResult.confidence = 0.1, id_m = ''K''\<rparr>,
        Some \<lparr>confidence = 0.5, transcript = ''b''\<rparr>) \<and>
   MatchResult.confidence \<lparr>MatchResult.confidence = 0.1, id_m = ''K''\<rparr>
     \<noteq> confidence \<lparr>confidence = 0.5, transcript = ''b''\<rparr>"
  by (simp add: parse_def parse_alternative_def try_command_def)

end
